theory Spec2Isabelle
  imports Main "HOL-Library.Sublist" "HOL-Library.AList"
begin

section \<open>Strings\<close>

text \<open>
  Python's \<open>str\<close> is modelled by \<open>string\<close>; a \<open>char\<close> stands for the code point of the
  same number, so the model covers the code points 0 to 255. The three character tables
  below are those of Python 3 on that range: \<open>str.isspace\<close>, the class \<open>\w\<close> of \<open>re\<close>
  on \<open>str\<close> patterns, and \<open>str.lower\<close>.
\<close>

definition isspace :: "char \<Rightarrow> bool" where
  "isspace c =
     (let n = (of_char c :: nat)
      in (9 \<le> n \<and> n \<le> 13) \<or> (28 \<le> n \<and> n \<le> 32) \<or> n = 133 \<or> n = 160)"

definition is_word_char :: "char \<Rightarrow> bool" where
  "is_word_char c =
     (let n = (of_char c :: nat)
      in (48 \<le> n \<and> n \<le> 57) \<or> (65 \<le> n \<and> n \<le> 90) \<or> n = 95 \<or> (97 \<le> n \<and> n \<le> 122)
         \<or> n = 170 \<or> n = 178 \<or> n = 179 \<or> n = 181 \<or> n = 185 \<or> n = 186
         \<or> (188 \<le> n \<and> n \<le> 190) \<or> (192 \<le> n \<and> n \<le> 214)
         \<or> (216 \<le> n \<and> n \<le> 246) \<or> (248 \<le> n \<and> n \<le> 255))"

definition lower_char :: "char \<Rightarrow> char" where
  "lower_char c =
     (let n = (of_char c :: nat)
      in if (65 \<le> n \<and> n \<le> 90) \<or> (192 \<le> n \<and> n \<le> 214) \<or> (216 \<le> n \<and> n \<le> 222)
         then char_of (n + 32) else c)"

definition lower :: "string \<Rightarrow> string" where
  "lower s = map lower_char s"

text \<open>\<open>s.strip()\<close>: leading and trailing whitespace removed.\<close>

definition strip :: "string \<Rightarrow> string" where
  "strip s = rev (dropWhile isspace (rev (dropWhile isspace s)))"

text \<open>\<open>sep.join(xs)\<close>.\<close>

fun join :: "string \<Rightarrow> string list \<Rightarrow> string" where
  "join sep [] = []"
| "join sep [x] = x"
| "join sep (x # y # ys) = x @ sep @ join sep (y # ys)"

text \<open>Index of the first occurrence of \<open>needle\<close> in a string, as \<open>str.find\<close> (None for -1).\<close>

fun find_sub :: "string \<Rightarrow> string \<Rightarrow> nat option" where
  "find_sub needle [] = (if needle = [] then Some 0 else None)"
| "find_sub needle (c # cs) =
     (if prefix needle (c # cs) then Some 0 else map_option Suc (find_sub needle cs))"

section \<open>Content blocks\<close>

text \<open>
  \<open>TextBlock\<close> and \<open>ToolUseBlock\<close>. The field \<open>type\<close> of the two dataclasses is never
  assigned and is the constructor here; \<open>isinstance(b, ToolUseBlock)\<close> is \<open>is_tool_use\<close>.
  \<open>params\<close> is a dict of strings: an association list in insertion order, written with
  \<open>AList.update\<close> (a repeated key keeps its place and takes the new value).
\<close>

datatype block =
  TextBlock (content: string) (partial: bool)
| ToolUseBlock (name: string) (params: "(string \<times> string) list") (partial: bool)

fun is_tool_use :: "block \<Rightarrow> bool" where
  "is_tool_use (ToolUseBlock n ps p) = True"
| "is_tool_use (TextBlock c p) = False"

text \<open>\<open>d.get(k, default)\<close> on a dict of strings.\<close>

definition dict_get :: "(string \<times> string) list \<Rightarrow> string \<Rightarrow> string \<Rightarrow> string" where
  "dict_get d k dflt = (case map_of d k of Some v \<Rightarrow> v | None \<Rightarrow> dflt)"

section \<open>MessageParser\<close>

text \<open>
  A match object of \<open>re\<close>: its span and its two groups.
\<close>

record re_match =
  span_start :: nat
  span_end :: nat
  group1 :: string
  group2 :: string

text \<open>
  A pattern is modelled by its matcher at one position: given the text from that position
  on, the two groups and the length of the match, or None.

  \<open>re.finditer\<close> tries the positions from left to right and resumes at the end of each
  match; \<open>skip\<close> counts the characters of the last match still to pass. Both patterns of
  the parser need a \<open><\<close>, so there is no match at the end of the text.
\<close>

type_synonym matcher = "string \<Rightarrow> (string \<times> string \<times> nat) option"

fun finditer :: "matcher \<Rightarrow> nat \<Rightarrow> nat \<Rightarrow> string \<Rightarrow> re_match list" where
  "finditer m skip pos [] = []"
| "finditer m skip pos (c # cs) =
     (if 0 < skip then finditer m (skip - 1) (Suc pos) cs
      else (case m (c # cs) of
              None \<Rightarrow> finditer m 0 (Suc pos) cs
            | Some (g1, g2, len) \<Rightarrow>
                \<lparr>span_start = pos, span_end = pos + len, group1 = g1, group2 = g2\<rparr>
                  # finditer m (len - 1) (Suc pos) cs))"

text \<open>
  \<open>tool_pattern\<close>, with DOTALL:
  \<^verbatim>\<open><(read_file|write_to_file|execute_command|list_files|attempt_completion)>(.*?)</\1>\<close>
  The alternatives are tried in order; the lazy group ends at the first closing tag of the
  same name, and an alternative whose closing tag never comes fails.
\<close>

definition tool_names :: "string list" where
  "tool_names =
     [''read_file'', ''write_to_file'', ''execute_command'', ''list_files'',
      ''attempt_completion'']"

fun match_alternatives :: "string list \<Rightarrow> matcher" where
  "match_alternatives [] s = None"
| "match_alternatives (n # ns) s =
     (let opening = ''<'' @ n @ ''>''; closing = ''</'' @ n @ ''>''
      in if prefix opening s
         then (case find_sub closing (drop (length opening) s) of
                 Some k \<Rightarrow>
                   Some (n, take k (drop (length opening) s),
                         length opening + k + length closing)
               | None \<Rightarrow> match_alternatives ns s)
         else match_alternatives ns s)"

definition match_tool :: matcher where
  "match_tool = match_alternatives tool_names"

text \<open>
  \<open>param_pattern\<close>, with DOTALL: \<^verbatim>\<open><(\w+)>(.*?)</\1>\<close>. The greedy \<open>\w+\<close> is
  followed by \<open>>\<close>, which is no word character, so the key is the whole run of word
  characters after \<open><\<close>.
\<close>

definition match_param :: matcher where
  "match_param s =
     (case s of
        [] \<Rightarrow> None
      | c # rest \<Rightarrow>
          if c \<noteq> CHR ''<'' then None
          else (let key = takeWhile is_word_char rest
                in if key = [] then None
                   else (case dropWhile is_word_char rest of
                           [] \<Rightarrow> None
                         | d # body \<Rightarrow>
                             if d \<noteq> CHR ''>'' then None
                             else (let closing = ''</'' @ key @ ''>''
                                   in case find_sub closing body of
                                        None \<Rightarrow> None
                                      | Some k \<Rightarrow>
                                          Some (key, take k body,
                                                length key + 2 + k + length closing)))))"

text \<open>The inner loop: \<open>params[param_match.group(1)] = param_match.group(2).strip()\<close>.\<close>

definition parse_params :: "string \<Rightarrow> (string \<times> string) list" where
  "parse_params tool_content =
     foldl (\<lambda>ps pm. AList.update (group1 pm) (strip (group2 pm)) ps) []
       (finditer match_param 0 0 tool_content)"

text \<open>One pass of the outer loop, on \<open>(content_blocks, last_end)\<close>.\<close>

definition parse_step ::
  "string \<Rightarrow> block list \<times> nat \<Rightarrow> re_match \<Rightarrow> block list \<times> nat" where
  "parse_step message acc m =
     (let content_blocks = fst acc; last_end = snd acc;
          content_blocks1 =
            (if span_start m > last_end
             then (let text_content =
                         strip (take (span_start m - last_end) (drop last_end message))
                   in if text_content \<noteq> []
                      then content_blocks @ [TextBlock text_content False]
                      else content_blocks)
             else content_blocks);
          tool_name = group1 m;
          tool_content = strip (group2 m)
      in (content_blocks1 @ [ToolUseBlock tool_name (parse_params tool_content) False],
          span_end m))"

definition parse_assistant_message :: "string \<Rightarrow> block list" where
  "parse_assistant_message message =
     (let acc = foldl (parse_step message) ([], 0) (finditer match_tool 0 0 message);
          content_blocks = fst acc; last_end = snd acc;
          content_blocks1 =
            (if last_end < length message
             then (let remaining_text = strip (drop last_end message)
                   in if remaining_text \<noteq> []
                      then content_blocks @ [TextBlock remaining_text False]
                      else content_blocks)
             else content_blocks)
      in if content_blocks1 = [] \<and> strip message \<noteq> []
         then [TextBlock (strip message) False]
         else content_blocks1)"

section \<open>Collaborators\<close>

text \<open>
  \<open>StreamChunk\<close>; the fields \<open>type\<close> and \<open>text\<close> are \<open>chunk_type\<close> and \<open>chunk_text\<close>.
\<close>

record stream_chunk =
  chunk_type :: string
  chunk_text :: "string option"
  input_tokens :: "int option"
  output_tokens :: "int option"

text \<open>A message \<open>{"role": r, "content": c}\<close> is the pair \<open>(r, c)\<close>.\<close>

type_synonym message = "string \<times> string"

text \<open>
  What a run of the program meets from outside, with \<open>'w\<close> the world the tools act on:
  \<^item> \<open>create_message_stream k system_prompt messages\<close>: the chunks the backend yields for
    the request number \<open>k\<close>, and the exception it raises after them, if any;
  \<^item> \<open>operator_input k\<close>: the line \<open>input()\<close> returns on its call number \<open>k\<close>, None when it
    raises \<open>EOFError\<close>;
  \<^item> the four helpers \<open>_read_file\<close>, \<open>_write_file\<close>, \<open>_execute_command\<close> and
    \<open>_list_files\<close> of \<open>ToolExecutor\<close>, which work on files and processes: each returns
    the new world with either \<open>Inr\<close> the string it returns or \<open>Inl\<close> the exception it
    raises.

  An exception is told by its class, since \<open>except Exception\<close> tells them so:
  \<open>Exception m\<close> is an instance of \<open>Exception\<close> with \<open>str(e) = m\<close> (\<open>OSError\<close>,
  \<open>UnicodeDecodeError\<close>, \<open>EOFError\<close>, \<dots>), and \<open>Interrupt m\<close> is one outside that class
  (\<open>KeyboardInterrupt\<close>, which \<open>main\<close> catches, \<open>asyncio.CancelledError\<close>,
  \<open>SystemExit\<close>).
\<close>

datatype exn = Exception string | Interrupt string

record 'w env =
  create_message_stream ::
    "nat \<Rightarrow> string \<Rightarrow> message list \<Rightarrow> stream_chunk list \<times> exn option"
  operator_input :: "nat \<Rightarrow> string option"
  read_file :: "'w \<Rightarrow> string \<Rightarrow> (exn + string) \<times> 'w"
  write_file :: "'w \<Rightarrow> string \<Rightarrow> string \<Rightarrow> (exn + string) \<times> 'w"
  execute_command :: "'w \<Rightarrow> string \<Rightarrow> (exn + string) \<times> 'w"
  list_files :: "'w \<Rightarrow> string \<Rightarrow> (exn + string) \<times> 'w"

section \<open>ToolExecutor\<close>

text \<open>The body of the \<open>try\<close> of \<open>execute_tool\<close>.\<close>

definition execute_tool_try :: "'w env \<Rightarrow> block \<Rightarrow> 'w \<Rightarrow> (exn + string) \<times> 'w" where
  "execute_tool_try env tool w =
     (if name tool = ''read_file''
      then read_file env w (dict_get (params tool) ''path'' [])
      else if name tool = ''write_to_file''
      then write_file env w (dict_get (params tool) ''path'' [])
             (dict_get (params tool) ''content'' [])
      else if name tool = ''execute_command''
      then execute_command env w (dict_get (params tool) ''command'' [])
      else if name tool = ''list_files''
      then list_files env w (dict_get (params tool) ''path'' ''.'')
      else if name tool = ''attempt_completion''
      then (Inr (''Task completed: '' @ dict_get (params tool) ''result'' ''Done''), w)
      else (Inr (''Unknown tool: '' @ name tool), w))"

text \<open>
  \<open>execute_tool\<close>: the \<open>try\<close> with its handler
  \<open>except Exception as e: return f"Error: {str(e)}"\<close>. An exception outside the class
  \<open>Exception\<close> is not caught and leaves the call.
\<close>

definition execute_tool :: "'w env \<Rightarrow> block \<Rightarrow> 'w \<Rightarrow> (exn + string) \<times> 'w" where
  "execute_tool env tool w =
     (case execute_tool_try env tool w of
        (Inl (Exception e), w') \<Rightarrow> (Inr (''Error: '' @ e), w')
      | (Inl (Interrupt e), w') \<Rightarrow> (Inl (Interrupt e), w')
      | (Inr r, w') \<Rightarrow> (Inr r, w'))"

section \<open>Task\<close>

text \<open>
  \<open>TaskState\<close>. An entry \<open>{"type": "text", "text": t}\<close> of \<open>user_message_content\<close>, and of
  the \<open>user_content\<close> of a request, is its text \<open>t\<close>: no entry has another type.
\<close>

record task_state =
  is_streaming :: bool
  current_streaming_content_index :: nat
  assistant_message_content :: "block list"
  user_message_content :: "string list"
  user_message_content_ready :: bool
  abort :: bool

text \<open>
  What presentation did, in order: \<open>Presented i b\<close> when the block \<open>b\<close> at index \<open>i\<close> was
  passed (a tool block after its execution), \<open>Completion i b\<close> when the block at index \<open>i\<close>
  was the completion tool and the operator was asked for the next task.
\<close>

datatype event = Presented nat block | Completion nat block

fun event_index :: "event \<Rightarrow> nat" where
  "event_index (Presented i b) = i"
| "event_index (Completion i b) = i"

fun is_completion :: "event \<Rightarrow> bool" where
  "is_completion (Presented i b) = False"
| "is_completion (Completion i b) = True"

text \<open>
  \<open>Task\<close>. The attribute \<open>next_task\<close> is absent until the first assignment: None is both
  the absent attribute and the value \<open>None\<close>. The last four fields are not attributes of
  the class: the world of the tools, the number of lines read from the operator, the
  \<open>messages\<close> of every request sent to the backend, and the record of presentation.
\<close>

record 'w task =
  task_state :: task_state
  conversation_history :: "message list"
  next_task :: "string option"
  world :: 'w
  inputs_read :: nat
  requests :: "message list list"
  presented :: "event list"

definition newline :: string where
  "newline = [CHR 0x0A]"

definition system_prompt :: string where
  "system_prompt = join newline
     [''You are Cline, an AI coding assistant.'',
      [],
      ''Available tools:'',
      ''- read_file: Read file contents'',
      ''- write_to_file: Create or modify files'',
      ''- execute_command: Run shell commands'',
      ''- list_files: List directory contents  '',
      ''- attempt_completion: Mark task as complete'',
      [],
      ''Tool format examples:'',
      ''<read_file>'',
      ''<path>filename.py</path>'',
      ''</read_file>'',
      [],
      ''<write_to_file>'',
      ''<path>filename.py</path>'',
      ''<content>file content here</content>'',
      ''</write_to_file>'',
      [],
      ''<execute_command>'',
      ''<command>ls -la</command>'',
      ''</execute_command>'',
      [],
      ''Use tools systematically to complete tasks. Call attempt_completion when finished.'']"

text \<open>\<open>Task.__init__\<close>, on the world \<open>w\<close>.\<close>

definition init_task :: "'w \<Rightarrow> 'w task" where
  "init_task w =
     \<lparr>task_state =
        \<lparr>is_streaming = False, current_streaming_content_index = 0,
         assistant_message_content = [], user_message_content = [],
         user_message_content_ready = False, abort = False\<rparr>,
      conversation_history = [], next_task = None,
      world = w, inputs_read = 0, requests = [], presented = []\<rparr>"

text \<open>Assignments to single fields of \<open>self.task_state\<close>.\<close>

definition set_ready :: "'w task \<Rightarrow> 'w task" where
  "set_ready s = s\<lparr>task_state := (task_state s)\<lparr>user_message_content_ready := True\<rparr>\<rparr>"

definition set_abort :: "bool \<Rightarrow> 'w task \<Rightarrow> 'w task" where
  "set_abort b s = s\<lparr>task_state := (task_state s)\<lparr>abort := b\<rparr>\<rparr>"

definition set_streaming :: "bool \<Rightarrow> 'w task \<Rightarrow> 'w task" where
  "set_streaming b s = s\<lparr>task_state := (task_state s)\<lparr>is_streaming := b\<rparr>\<rparr>"

definition set_content :: "block list \<Rightarrow> 'w task \<Rightarrow> 'w task" where
  "set_content bs s = s\<lparr>task_state := (task_state s)\<lparr>assistant_message_content := bs\<rparr>\<rparr>"

definition advance :: "'w task \<Rightarrow> 'w task" where
  "advance s =
     s\<lparr>task_state := (task_state s)
         \<lparr>current_streaming_content_index :=
            current_streaming_content_index (task_state s) + 1\<rparr>\<rparr>"

definition log_event :: "event \<Rightarrow> 'w task \<Rightarrow> 'w task" where
  "log_event e s = s\<lparr>presented := presented s @ [e]\<rparr>"

text \<open>
  The branch of \<open>_present_content\<close> for the completion tool. \<open>input()\<close> raises \<open>EOFError\<close>
  when the operator's input has ended; otherwise every branch sets \<open>abort\<close>, and a
  follow-up that is neither empty nor a quit word becomes \<open>next_task\<close>.
\<close>

definition quit_words :: "string list" where
  "quit_words = [''quit'', ''exit'', ''q'']"

definition eof_error :: string where
  "eof_error = ''EOF when reading a line''"

definition present_completion :: "'w env \<Rightarrow> 'w task \<Rightarrow> exn option \<times> 'w task" where
  "present_completion env s =
     (case operator_input env (inputs_read s) of
        None \<Rightarrow> (Some (Exception eof_error), s)
      | Some line \<Rightarrow>
          (let next_task_in = strip line;
               s1 = s\<lparr>inputs_read := inputs_read s + 1\<rparr>;
               s2 = (if lower next_task_in \<in> set quit_words then set_abort True s1
                     else if next_task_in \<noteq> []
                     then set_abort True (s1\<lparr>next_task := Some next_task_in\<rparr>)
                     else set_abort True s1)
           in (None, set_ready s2)))"

text \<open>
  The execution of a tool block in \<open>_present_content\<close>: the result is appended to
  \<open>user_message_content\<close>. An exception that leaves \<open>execute_tool\<close> leaves this part too,
  with nothing appended.
\<close>

definition run_tool :: "'w env \<Rightarrow> block \<Rightarrow> 'w task \<Rightarrow> exn option \<times> 'w task" where
  "run_tool env block s =
     (case execute_tool env block (world s) of
        (Inl x, w') \<Rightarrow> (Some x, s\<lparr>world := w'\<rparr>)
      | (Inr result, w') \<Rightarrow>
          (None,
           s\<lparr>world := w',
             task_state := (task_state s)
               \<lparr>user_message_content :=
                  user_message_content (task_state s)
                    @ [''Tool '' @ name block @ '' result:'' @ newline @ result]\<rparr>\<rparr>))"

text \<open>
  \<open>_present_content\<close>. The first component of the result is the exception that left the
  call, if any; the state is the one reached. \<open>tool_run\<close> is the execution of the tool of a
  finalized tool block.
\<close>

function present_content :: "'w env \<Rightarrow> 'w task \<Rightarrow> exn option \<times> 'w task" where
  "present_content env s =
     (let i = current_streaming_content_index (task_state s);
          blocks = assistant_message_content (task_state s)
      in if i \<ge> length blocks
         then (None, if \<not> is_streaming (task_state s) then set_ready s else s)
         else (let block = blocks ! i
               in if is_tool_use block \<and> \<not> partial block \<and> name block = ''attempt_completion''
                  then present_completion env (log_event (Completion i block) s)
                  else (let tool_run = (if is_tool_use block \<and> \<not> partial block
                                   then run_tool env block s else (None, s));
                            s1 = snd tool_run
                        in if fst tool_run \<noteq> None then tool_run
                           else if \<not> partial block
                           then (let s2 = (if i = length blocks - 1 then set_ready s1 else s1);
                                     s3 = advance (log_event (Presented i block) s2)
                                 in if i + 1 < length blocks
                                    then present_content env s3
                                    else (None, s3))
                           else (None, s1))))"
  by pat_completeness auto

lemma run_tool_cursor:
  "current_streaming_content_index (task_state (snd (run_tool env b s))) =
     current_streaming_content_index (task_state s)
   \<and> assistant_message_content (task_state (snd (run_tool env b s))) =
     assistant_message_content (task_state s)"
  by (simp add: run_tool_def split: prod.splits sum.splits)

termination present_content
  by (relation "measure (\<lambda>(env, s). length (assistant_message_content (task_state s))
                   - current_streaming_content_index (task_state s))")
     (auto simp: advance_def log_event_def set_ready_def run_tool_cursor)

declare present_content.simps [simp del]

text \<open>
  How a call ends: it returns a value, an exception leaves it, or it never returns.
\<close>

datatype 'a outcome = Returns 'a | Raises exn | Hangs

text \<open>
  The \<open>async for\<close> of \<open>_make_request\<close> over the chunks of the stream, on the local
  \<open>assistant_message\<close> and the task. \<open>err\<close> is the exception the backend raises after its
  last chunk. The result is the exception that ended the loop, if any, the text
  accumulated and the state. A \<open>break\<close> leaves the stream unread, so the backend's error
  is not met.
\<close>

fun stream_loop ::
  "'w env \<Rightarrow> stream_chunk list \<Rightarrow> exn option \<Rightarrow> string \<Rightarrow> 'w task
     \<Rightarrow> exn option \<times> string \<times> 'w task" where
  "stream_loop env [] err assistant_message s = (err, assistant_message, s)"
| "stream_loop env (chunk # rest) err assistant_message s =
     (if chunk_type chunk = ''text'' \<and> chunk_text chunk \<noteq> None \<and> chunk_text chunk \<noteq> Some []
      then (let assistant_message1 = assistant_message @ the (chunk_text chunk);
                s1 = set_content (parse_assistant_message assistant_message1) s
            in case present_content env s1 of
                 (Some e, s2) \<Rightarrow> (Some e, assistant_message1, s2)
               | (None, s2) \<Rightarrow>
                   if abort (task_state s2) then (None, assistant_message1, s2)
                   else stream_loop env rest err assistant_message1 s2)
      else stream_loop env rest err assistant_message s)"

text \<open>The "Reset state" assignments of \<open>_make_request\<close>.\<close>

definition reset_state :: "'w task \<Rightarrow> 'w task" where
  "reset_state s =
     s\<lparr>task_state := (task_state s)
         \<lparr>current_streaming_content_index := 0,
          assistant_message_content := [],
          user_message_content := [],
          user_message_content_ready := False\<rparr>\<rparr>"

text \<open>"Finalize content": \<open>block.partial = False\<close> for every block.\<close>

fun finalize_block :: "block \<Rightarrow> block" where
  "finalize_block (TextBlock c p) = TextBlock c False"
| "finalize_block (ToolUseBlock n ps p) = ToolUseBlock n ps False"

definition finalize_content :: "'w task \<Rightarrow> 'w task" where
  "finalize_content s =
     set_content (map finalize_block (assistant_message_content (task_state s))) s"

text \<open>
  The end of \<open>_make_request\<close>, from "Add to history" on: the value returned and the state.
\<close>

definition add_to_history :: "string \<Rightarrow> 'w task \<Rightarrow> bool \<times> 'w task" where
  "add_to_history assistant_message s =
     (if assistant_message \<noteq> []
      then (let s1 = s\<lparr>conversation_history :=
                          conversation_history s @ [(''assistant'', assistant_message)]\<rparr>;
                tool_blocks = filter is_tool_use (assistant_message_content (task_state s1))
            in if tool_blocks = [] then (False, s1) else (True, s1))
      else (True, s))"

text \<open>
  \<open>_make_request\<close>. An exception of class \<open>Exception\<close> raised in the \<open>try\<close> is caught and
  the call returns \<open>True\<close>; any other leaves the call, after the \<open>finally\<close>. The loop
  \<open>while not ready and not abort: await asyncio.sleep(0.1)\<close> has nothing to wait for,
  since no other coroutine runs: it is passed when its condition is false and never left
  otherwise.
\<close>

definition make_request :: "'w env \<Rightarrow> string list \<Rightarrow> 'w task \<Rightarrow> bool outcome \<times> 'w task" where
  "make_request env user_content s =
     (if abort (task_state s) then (Returns True, s)
      else (let s1 = reset_state s;
                content_text = join newline (filter (\<lambda>t. t \<noteq> []) user_content);
                messages = conversation_history s1 @ [(''user'', content_text)];
                s2 = set_streaming True s1;
                (chunks, err) =
                   create_message_stream env (length (requests s2)) system_prompt messages;
                s3 = s2\<lparr>requests := requests s2 @ [messages]\<rparr>;
                (raised, assistant_message, s4) = stream_loop env chunks err [] s3;
                s5 = set_streaming False s4
            in if raised \<noteq> None
               then (case raised of
                       Some (Interrupt e) \<Rightarrow> (Raises (Interrupt e), s5)
                     | _ \<Rightarrow> (Returns True, s5))
               else if abort (task_state s5) then (Returns True, s5)
               else (case present_content env (finalize_content s5) of
                       (Some e, s6) \<Rightarrow> (Raises e, s6)
                     | (None, s6) \<Rightarrow>
                         if \<not> user_message_content_ready (task_state s6)
                            \<and> \<not> abort (task_state s6)
                         then (Hangs, s6)
                         else if abort (task_state s6) then (Returns True, s6)
                         else (let (r, s7) = add_to_history assistant_message s6
                               in (Returns r, s7)))))"

text \<open>
  One pass of the \<open>while\<close> of \<open>_task_loop\<close>, entered with \<open>abort\<close> false: either the loop
  goes on with a new \<open>user_content\<close>, or it is left.
\<close>

datatype 'w loop_step =
  Next_request "string list" "'w task"
| Leave "unit outcome" "'w task"

definition continue_prompt :: string where
  "continue_prompt = ''Continue with the task or call attempt_completion.''"

definition task_loop_body :: "'w env \<Rightarrow> string list \<Rightarrow> 'w task \<Rightarrow> 'w loop_step" where
  "task_loop_body env user_content s =
     (case make_request env user_content s of
        (Raises e, s1) \<Rightarrow> Leave (Raises e) s1
      | (Hangs, s1) \<Rightarrow> Leave Hangs s1
      | (Returns did_end, s1) \<Rightarrow>
          if did_end
          then (if next_task s1 \<noteq> None \<and> next_task s1 \<noteq> Some []
                then (let next_task_content = the (next_task s1);
                          s2 = s1\<lparr>next_task := None\<rparr>;
                          s3 = set_abort False s2
                      in Next_request [next_task_content] s3)
                else Leave (Returns ()) s1)
          else Next_request [continue_prompt] s1)"

text \<open>
  \<open>_task_loop\<close>, which runs as long as the backend and the operator keep it going: the
  first argument bounds the number of passes, and None is a run that needs more.
\<close>

fun task_loop ::
  "nat \<Rightarrow> 'w env \<Rightarrow> string list \<Rightarrow> 'w task \<Rightarrow> (unit outcome \<times> 'w task) option" where
  "task_loop 0 env user_content s = None"
| "task_loop (Suc n) env user_content s =
     (if abort (task_state s) then Some (Returns (), s)
      else (case task_loop_body env user_content s of
              Next_request user_content1 s1 \<Rightarrow> task_loop n env user_content1 s1
            | Leave r s1 \<Rightarrow> Some (r, s1)))"

definition start_task ::
  "nat \<Rightarrow> 'w env \<Rightarrow> string \<Rightarrow> 'w task \<Rightarrow> (unit outcome \<times> 'w task) option" where
  "start_task n env initial_task s =
     task_loop n env [initial_task]
       (s\<lparr>conversation_history := [(''user'', initial_task)]\<rparr>)"

section \<open>The record of a turn\<close>

abbreviation cursor :: "'w task \<Rightarrow> nat" where
  "cursor s \<equiv> current_streaming_content_index (task_state s)"

abbreviation blocks :: "'w task \<Rightarrow> block list" where
  "blocks s \<equiv> assistant_message_content (task_state s)"

abbreviation results :: "'w task \<Rightarrow> string list" where
  "results s \<equiv> user_message_content (task_state s)"

text \<open>An event that stands for the execution of a tool.\<close>

fun is_execution :: "event \<Rightarrow> bool" where
  "is_execution (Presented i b) = is_tool_use b"
| "is_execution (Completion i b) = False"

text \<open>
  \<open>presents k evs k'\<close>: the events \<open>evs\<close> pass the indices from \<open>k\<close> up to \<open>k'\<close>, one
  each and in order, and none of them is the completion tool.
\<close>

definition presents :: "nat \<Rightarrow> event list \<Rightarrow> nat \<Rightarrow> bool" where
  "presents k evs k' \<longleftrightarrow>
     k \<le> k' \<and> map event_index evs = [k..<k'] \<and> list_all (\<lambda>e. \<not> is_completion e) evs"

text \<open>
  \<open>step_ok s r s' evs\<close>: from the state \<open>s\<close>, presentation has added the events \<open>evs\<close> and
  reached \<open>s'\<close> with the exception \<open>r\<close>. Either the events pass the indices from the cursor
  of \<open>s\<close> to that of \<open>s'\<close>, \<open>abort\<close> is unchanged and each execution has added one result;
  or they do so up to a last event, the completion tool at the cursor of \<open>s'\<close>, after
  which \<open>abort\<close> is set or an exception is on its way.
\<close>

definition step_ok :: "'w task \<Rightarrow> exn option \<Rightarrow> 'w task \<Rightarrow> event list \<Rightarrow> bool" where
  "step_ok s r s' evs \<longleftrightarrow>
     (presents (cursor s) evs (cursor s')
        \<and> abort (task_state s') = abort (task_state s)
        \<and> length (results s') = length (results s) + length (filter is_execution evs))
     \<or> (\<exists>pre e. evs = pre @ [e] \<and> presents (cursor s) pre (cursor s')
           \<and> is_completion e \<and> event_index e = cursor s'
           \<and> (r \<noteq> None \<or> abort (task_state s'))
           \<and> length (results s') = length (results s) + length (filter is_execution pre))"

text \<open>
  \<open>turn_ok evs c n\<close>: the events of one turn, with the cursor \<open>c\<close> and the number \<open>n\<close> of
  results at its end. The events pass the indices from 0 to \<open>c\<close>, and either that is all,
  or one more event follows, the completion tool at index \<open>c\<close>; \<open>n\<close> counts the
  executions among them.
\<close>

definition turn_ok :: "event list \<Rightarrow> nat \<Rightarrow> nat \<Rightarrow> bool" where
  "turn_ok evs c n \<longleftrightarrow>
     (presents 0 evs c \<and> n = length (filter is_execution evs))
     \<or> (\<exists>pre e. evs = pre @ [e] \<and> presents 0 pre c \<and> is_completion e
           \<and> event_index e = c \<and> n = length (filter is_execution pre))"

section \<open>Example runs\<close>

text \<open>
  A backend that answers the request number \<open>k\<close> with the \<open>k\<close>-th script of text deltas
  followed by a usage report, an operator who types the given lines, and tools on a
  world that counts the tool calls made.
\<close>

definition text_chunk :: "string \<Rightarrow> stream_chunk" where
  "text_chunk t =
     \<lparr>chunk_type = ''text'', chunk_text = Some t, input_tokens = None, output_tokens = None\<rparr>"

definition usage_chunk :: stream_chunk where
  "usage_chunk =
     \<lparr>chunk_type = ''usage'', chunk_text = None, input_tokens = Some 1, output_tokens = Some 1\<rparr>"

definition nth_opt :: "'a list \<Rightarrow> nat \<Rightarrow> 'a option" where
  "nth_opt xs k = (if k < length xs then Some (xs ! k) else None)"

definition scripted_env :: "string list list \<Rightarrow> string list \<Rightarrow> nat env" where
  "scripted_env replies lines =
     \<lparr>create_message_stream =
        (\<lambda>k sys msgs.
           case nth_opt replies k of
             Some deltas \<Rightarrow> (map text_chunk deltas @ [usage_chunk], None)
           | None \<Rightarrow> ([], Some (Exception ''backend closed''))),
      operator_input = nth_opt lines,
      read_file = (\<lambda>w path. (Inr (''contents of '' @ path), Suc w)),
      write_file = (\<lambda>w path c. (Inr (''wrote '' @ path), Suc w)),
      execute_command = (\<lambda>w c. (Inl (Exception (''cannot run '' @ c)), Suc w)),
      list_files = (\<lambda>w path. (Inr (''listing of '' @ path), Suc w))\<rparr>"


text \<open>A turn whose answer arrives in three deltas: text, a tool call, text.\<close>

definition run_three :: "nat env" where
  "run_three =
     scripted_env [[''Reading '', ''<read_file><path>a</path></read_file>'', '' done'']] []"

text \<open>
  A turn whose answer calls a tool, then the completion tool, then another tool; the
  operator answers \<open>quit\<close>.
\<close>

definition run_completion :: "nat env" where
  "run_completion =
     scripted_env
       [[''<read_file><path>a</path></read_file><attempt_completion><result>ok</result></attempt_completion><read_file><path>b</path></read_file>'']]
       [''quit'']"

section \<open>Finalized segments\<close>

text \<open>The finalized segments of a parse result: those not marked partial.\<close>

definition finalized :: "block list \<Rightarrow> block list" where
  "finalized bs = filter (\<lambda>b. \<not> partial b) bs"

text \<open>A block list up to and including its last tool block.\<close>

definition upto_last_tool :: "block list \<Rightarrow> block list" where
  "upto_last_tool bs = rev (dropWhile (\<lambda>b. \<not> is_tool_use b) (rev bs))"

text \<open>The tool spans of a buffer: the matches the outer loop of the parser runs over.\<close>

definition tool_spans :: "string \<Rightarrow> re_match list" where
  "tool_spans message = finditer match_tool 0 0 message"

section \<open>Asking the operator\<close>



text \<open>A task whose first answer is one tool call, in one delta; the backend then closes.\<close>

definition run_read :: "nat env" where
  "run_read = scripted_env [[''<read_file><path>a.txt</path></read_file>'']] []"

text \<open>
  A task whose first answer is a tool call followed by the completion tool; the operator
  answers with the next task \<open>t2\<close>.
\<close>

definition run_read_next :: "nat env" where
  "run_read_next =
     scripted_env
       [[''<read_file><path>a.txt</path></read_file><attempt_completion><result>ok</result></attempt_completion>'']]
       [''t2'']"



section \<open>The text of a stream\<close>

text \<open>
  The text that \<open>_make_request\<close> accumulates from a stream that is read to its end: the
  deltas of the text chunks, the empty ones left out.
\<close>

fun stream_text :: "stream_chunk list \<Rightarrow> string" where
  "stream_text [] = []"
| "stream_text (chunk # rest) =
     (if chunk_type chunk = ''text'' \<and> chunk_text chunk \<noteq> None \<and> chunk_text chunk \<noteq> Some []
      then the (chunk_text chunk) @ stream_text rest
      else stream_text rest)"

text \<open>A task whose first answer is the text \<open>hi\<close>; the backend then closes.\<close>

definition run_text :: "nat env" where
  "run_text = scripted_env [[''hi'']] []"

section \<open>What presentation adds to the record\<close>

lemma presents_Nil: "presents k [] k"
  by (simp add: presents_def)

lemma presents_Cons:
  "presents (Suc k) evs k' \<Longrightarrow> event_index e = k \<Longrightarrow> \<not> is_completion e \<Longrightarrow> presents k (e # evs) k'"
  by (auto simp: presents_def upt_conv_Cons)

lemma presents_append:
  "presents k evs k' \<Longrightarrow> presents k' evs' k'' \<Longrightarrow> presents k (evs @ evs') k''"
proof -
  assume a: "presents k evs k'" and b: "presents k' evs' k''"
  then obtain d where d: "k'' = k' + d"
    by (auto simp: presents_def dest: le_Suc_ex)
  from a have "k \<le> k'" by (simp add: presents_def)
  then have "[k..<k' + d] = [k..<k'] @ [k'..<k' + d]"
    by (rule upt_add_eq_append)
  with a b d show ?thesis by (simp add: presents_def)
qed

lemma present_completion_effect:
  assumes "present_completion env s = (r, s')"
  shows "presented s' = presented s \<and> cursor s' = cursor s \<and> blocks s' = blocks s
         \<and> results s' = results s \<and> world s' = world s
         \<and> is_streaming (task_state s') = is_streaming (task_state s)
         \<and> (r \<noteq> None \<or> abort (task_state s'))"
  using assms
  by (auto simp: present_completion_def Let_def set_abort_def set_ready_def
           split: option.splits if_splits)

lemma run_tool_effect:
  "presented (snd (run_tool env b s)) = presented s
   \<and> cursor (snd (run_tool env b s)) = cursor s
   \<and> blocks (snd (run_tool env b s)) = blocks s
   \<and> abort (task_state (snd (run_tool env b s))) = abort (task_state s)
   \<and> is_streaming (task_state (snd (run_tool env b s))) = is_streaming (task_state s)
   \<and> length (results (snd (run_tool env b s))) =
       (if fst (run_tool env b s) = None then Suc (length (results s)) else length (results s))"
  by (simp add: run_tool_def split: prod.splits sum.splits)

lemma run_tool_more:
  "inputs_read (snd (run_tool env b s)) = inputs_read s
   \<and> next_task (snd (run_tool env b s)) = next_task s
   \<and> conversation_history (snd (run_tool env b s)) = conversation_history s
   \<and> requests (snd (run_tool env b s)) = requests s
   \<and> user_message_content_ready (task_state (snd (run_tool env b s))) =
       user_message_content_ready (task_state s)"
  by (simp add: run_tool_def split: prod.splits sum.splits)

lemma run_tool_raised:
  "fst (run_tool env b s) = Some x \<Longrightarrow>
     execute_tool env b (world s) = (Inl x, world (snd (run_tool env b s)))
     \<and> results (snd (run_tool env b s)) = results s"
  by (auto simp: run_tool_def split: prod.splits sum.splits)

text \<open>The state after a tool has run, or has not been asked for.\<close>

lemma tool_run_fields:
  fixes s :: "'w task" and env :: "'w env"
  assumes tr: "tool_run = (if is_tool_use b \<and> \<not> partial b then run_tool env b s else (None, s))"
  shows "presented (snd tool_run) = presented s"
    and "cursor (snd tool_run) = cursor s"
    and "blocks (snd tool_run) = blocks s"
    and "abort (task_state (snd tool_run)) = abort (task_state s)"
    and "is_streaming (task_state (snd tool_run)) = is_streaming (task_state s)"
    and "inputs_read (snd tool_run) = inputs_read s"
    and "next_task (snd tool_run) = next_task s"
    and "conversation_history (snd tool_run) = conversation_history s"
    and "requests (snd tool_run) = requests s"
    and "user_message_content_ready (task_state (snd tool_run)) =
           user_message_content_ready (task_state s)"
  unfolding tr by (simp_all add: run_tool_effect run_tool_more)

lemma tool_run_results:
  fixes s :: "'w task" and env :: "'w env"
  assumes tr: "tool_run = (if is_tool_use b \<and> \<not> partial b then run_tool env b s else (None, s))"
  shows "fst tool_run = None \<Longrightarrow> \<not> partial b \<Longrightarrow>
           length (results (snd tool_run)) = length (results s) + (if is_tool_use b then 1 else 0)"
    and "fst tool_run \<noteq> None \<Longrightarrow> results (snd tool_run) = results s"
    and "\<not> is_tool_use b \<Longrightarrow> results (snd tool_run) = results s \<and> world (snd tool_run) = world s"
    and "fst tool_run = Some x \<Longrightarrow>
           is_tool_use b \<and> \<not> partial b
           \<and> execute_tool env b (world s) = (Inl x, world (snd tool_run))"
  unfolding tr by (auto simp: run_tool_effect run_tool_raised split: if_splits)

lemma step_fields:
  fixes s1 :: "'w task"
  assumes s2: "s2 = (if c then set_ready s1 else s1)"
    and s3: "s3 = advance (log_event (Presented i b) s2)"
  shows "presented s3 = presented s1 @ [Presented i b]"
     and "cursor s3 = Suc (cursor s1)"
     and "blocks s3 = blocks s1"
     and "abort (task_state s3) = abort (task_state s1)"
     and "is_streaming (task_state s3) = is_streaming (task_state s1)"
     and "results s3 = results s1"
     and "inputs_read s3 = inputs_read s1" and "next_task s3 = next_task s1"
     and "conversation_history s3 = conversation_history s1" and "requests s3 = requests s1"
     and "world s3 = world s1"
     and "c \<longrightarrow> user_message_content_ready (task_state s3)"
  unfolding s2 s3
  by (simp_all add: advance_def log_event_def set_ready_def)

lemma step_ok_Cons:
  assumes ok: "step_ok s3 r s' evs"
    and c: "cursor s3 = Suc (cursor s)"
    and a: "abort (task_state s3) = abort (task_state s)"
    and l: "length (results s3) = length (results s) + (if is_tool_use b then 1 else 0)"
  shows "step_ok s r s' (Presented (cursor s) b # evs)"
proof -
  from ok consider
    (plain) "presents (cursor s3) evs (cursor s')"
      "abort (task_state s') = abort (task_state s3)"
      "length (results s') = length (results s3) + length (filter is_execution evs)"
  | (compl) pre e where "evs = pre @ [e]" "presents (cursor s3) pre (cursor s')"
      "is_completion e" "event_index e = cursor s'" "r \<noteq> None \<or> abort (task_state s')"
      "length (results s') = length (results s3) + length (filter is_execution pre)"
    unfolding step_ok_def by blast
  then show ?thesis
  proof cases
    case plain
    from plain(1) c have "presents (cursor s) (Presented (cursor s) b # evs) (cursor s')"
      by (simp add: presents_Cons)
    with plain a l show ?thesis
      unfolding step_ok_def by simp
  next
    case compl
    from compl(2) c have p: "presents (cursor s) (Presented (cursor s) b # pre) (cursor s')"
      by (simp add: presents_Cons)
    have "Presented (cursor s) b # evs = (Presented (cursor s) b # pre) @ [e]"
      using compl(1) by simp
    moreover have "length (results s') =
        length (results s) + length (filter is_execution (Presented (cursor s) b # pre))"
      using compl(6) l by simp
    ultimately show ?thesis
      unfolding step_ok_def using p compl(3,4,5) by blast
  qed
qed

lemma present_content_unfold:
  fixes s :: "'w task" and env :: "'w env"
  assumes lt: "\<not> length (blocks s) \<le> cursor s"
    and b: "b = blocks s ! cursor s"
    and notc: "\<not> (is_tool_use b \<and> \<not> partial b \<and> name b = ''attempt_completion'')"
    and tr: "tool_run = (if is_tool_use b \<and> \<not> partial b then run_tool env b s else (None, s))"
  shows "present_content env s =
           (if fst tool_run \<noteq> None then tool_run
            else if \<not> partial b
            then (let s2 = (if cursor s = length (blocks s) - 1 then set_ready (snd tool_run)
                            else snd tool_run);
                      s3 = advance (log_event (Presented (cursor s) b) s2)
                  in if cursor s + 1 < length (blocks s) then present_content env s3
                     else (None, s3))
            else (None, snd tool_run))"
  by (subst present_content.simps)
     (simp only: Let_def b [symmetric] tr [symmetric] lt notc if_False)

text \<open>The five ways through one call of presentation.\<close>

lemma present_content_cases [case_names idle completion partial raised pass]:
  fixes s :: "'w task" and env :: "'w env"
  obtains
    (idle) "length (blocks s) \<le> cursor s"
      "present_content env s =
         (None, if \<not> is_streaming (task_state s) then set_ready s else s)"
  | (completion) "cursor s < length (blocks s)"
      "is_tool_use (blocks s ! cursor s)" "\<not> partial (blocks s ! cursor s)"
      "present_content env s =
         present_completion env (log_event (Completion (cursor s) (blocks s ! cursor s)) s)"
  | (partial) "cursor s < length (blocks s)" "partial (blocks s ! cursor s)"
      "present_content env s = (None, s)"
  | (raised) x s1 where "cursor s < length (blocks s)"
      "is_tool_use (blocks s ! cursor s)" "\<not> partial (blocks s ! cursor s)"
      "present_content env s = (Some x, s1)"
      "execute_tool env (blocks s ! cursor s) (world s) = (Inl x, world s1)"
      "presented s1 = presented s" "cursor s1 = cursor s" "blocks s1 = blocks s"
      "abort (task_state s1) = abort (task_state s)"
      "is_streaming (task_state s1) = is_streaming (task_state s)"
      "results s1 = results s"
      "inputs_read s1 = inputs_read s" "next_task s1 = next_task s"
      "conversation_history s1 = conversation_history s" "requests s1 = requests s"
  | (pass) s3 where "cursor s < length (blocks s)" "\<not> partial (blocks s ! cursor s)"
      "presented s3 = presented s @ [Presented (cursor s) (blocks s ! cursor s)]"
      "cursor s3 = Suc (cursor s)" "blocks s3 = blocks s"
      "abort (task_state s3) = abort (task_state s)"
      "is_streaming (task_state s3) = is_streaming (task_state s)"
      "inputs_read s3 = inputs_read s" "next_task s3 = next_task s"
      "conversation_history s3 = conversation_history s" "requests s3 = requests s"
      "cursor s = length (blocks s) - 1 \<longrightarrow> user_message_content_ready (task_state s3)"
      "\<not> is_tool_use (blocks s ! cursor s) \<longrightarrow> results s3 = results s \<and> world s3 = world s"
      "length (results s3) =
         length (results s) + (if is_tool_use (blocks s ! cursor s) then 1 else 0)"
      "present_content env s =
         (if cursor s + 1 < length (blocks s) then present_content env s3 else (None, s3))"
proof (cases "length (blocks s) \<le> cursor s")
  case True
  then have "present_content env s =
         (None, if \<not> is_streaming (task_state s) then set_ready s else s)"
    by (subst present_content.simps) (simp add: Let_def)
  with True show ?thesis by (rule idle)
next
  case False
  let ?b = "blocks s ! cursor s"
  show ?thesis
  proof (cases "is_tool_use ?b \<and> \<not> partial ?b \<and> name ?b = ''attempt_completion''")
    case True
    with False have "present_content env s =
         present_completion env (log_event (Completion (cursor s) ?b) s)"
      by (subst present_content.simps) (simp add: Let_def)
    with False True show ?thesis by (intro completion) simp_all
  next
    case notc: False
    define tool_run where
      "tool_run = (if is_tool_use ?b \<and> \<not> partial ?b then run_tool env ?b s else (None, s))"
    note eq = present_content_unfold [OF False refl notc tool_run_def]
    note f = tool_run_fields [OF tool_run_def]
    note g = tool_run_results [OF tool_run_def]
    show ?thesis
    proof (cases "fst tool_run")
      case (Some x)
      with eq have pc: "present_content env s = (Some x, snd tool_run)"
        by (simp add: prod_eq_iff)
      from g(4) [OF Some] g(2) Some f False pc show ?thesis
        by (intro raised [of x "snd tool_run"]) simp_all
    next
      case None
      show ?thesis
      proof (cases "partial ?b")
        case True
        then have "tool_run = (None, s)" by (simp add: tool_run_def)
        with eq True have "present_content env s = (None, s)" by simp
        with False True show ?thesis by (intro partial) simp_all
      next
        case np: False
        define s2 where
          "s2 = (if cursor s = length (blocks s) - 1 then set_ready (snd tool_run)
                 else snd tool_run)"
        define s3 where "s3 = advance (log_event (Presented (cursor s) ?b) s2)"
        note h = step_fields [OF s2_def s3_def]
        from eq None np
        have pc: "present_content env s =
            (if cursor s + 1 < length (blocks s) then present_content env s3 else (None, s3))"
          by (simp add: Let_def s2_def s3_def)
        from False np f h g(3) g(1) [OF None np] pc show ?thesis
          by (intro pass [of s3]) simp_all
      qed
    qed
  qed
qed

lemma present_content_effect:
  "present_content env s = (r, s') \<Longrightarrow>
     blocks s' = blocks s \<and> is_streaming (task_state s') = is_streaming (task_state s)
     \<and> (\<exists>evs. presented s' = presented s @ evs \<and> step_ok s r s' evs)"
proof (induction "length (blocks s) - cursor s" arbitrary: s rule: less_induct)
  case less
  show ?case
  proof (cases rule: present_content_cases [of s env])
    case idle
    with less.prems have "r = None"
      and "s' = (if \<not> is_streaming (task_state s) then set_ready s else s)"
      by simp_all
    then show ?thesis
      by (auto simp: set_ready_def step_ok_def presents_Nil)
  next
    case completion
    with less.prems
    have pc: "present_completion env
                (log_event (Completion (cursor s) (blocks s ! cursor s)) s) = (r, s')"
      by simp
    have "step_ok s r s' ([] @ [Completion (cursor s) (blocks s ! cursor s)])"
      unfolding step_ok_def using present_completion_effect [OF pc]
      by (auto simp: log_event_def presents_Nil)
    with present_completion_effect [OF pc] show ?thesis
      by (simp add: log_event_def)
  next
    case partial
    with less.prems have "r = None" "s' = s" by simp_all
    then show ?thesis by (simp add: step_ok_def presents_Nil)
  next
    case (raised x s1)
    with less.prems have "r = Some x" "s' = s1" by simp_all
    with raised show ?thesis by (simp add: step_ok_def presents_Nil)
  next
    case (pass s3)
    let ?b = "blocks s ! cursor s"
    show ?thesis
    proof (cases "cursor s + 1 < length (blocks s)")
      case True
      with pass less.prems have rec: "present_content env s3 = (r, s')" by simp
      have "length (blocks s3) - cursor s3 < length (blocks s) - cursor s"
        using pass(1,4,5) by simp
      from less.hyps [OF this rec]
      obtain evs where e: "blocks s' = blocks s3"
        "is_streaming (task_state s') = is_streaming (task_state s3)"
        "presented s' = presented s3 @ evs" "step_ok s3 r s' evs"
        by blast
      from step_ok_Cons [OF e(4) pass(4) pass(6) pass(14)]
      have "step_ok s r s' (Presented (cursor s) ?b # evs)" .
      moreover have "presented s' = presented s @ (Presented (cursor s) ?b # evs)"
        using e(3) pass(3) by simp
      moreover have "blocks s' = blocks s"
        using e(1) pass(5) by simp
      moreover have "is_streaming (task_state s') = is_streaming (task_state s)"
        using e(2) pass(7) by simp
      ultimately show ?thesis by blast
    next
      case False
      with pass less.prems have "r = None" "s' = s3" by simp_all
      moreover have "step_ok s r s3 [Presented (cursor s) ?b]"
        unfolding step_ok_def using pass(4,6,14) by (simp add: presents_def)
      ultimately show ?thesis using pass(3,5,7) by blast
    qed
  qed
qed

lemma step_ok_start:
  "step_ok s1 r s' evs \<Longrightarrow> cursor s1 = cursor s \<Longrightarrow>
   abort (task_state s1) = abort (task_state s) \<Longrightarrow>
   length (results s1) = length (results s) \<Longrightarrow> step_ok s r s' evs"
  by (simp add: step_ok_def)

lemma step_ok_end:
  "step_ok s r s1 evs \<Longrightarrow> cursor s' = cursor s1 \<Longrightarrow>
   abort (task_state s') = abort (task_state s1) \<Longrightarrow>
   length (results s') = length (results s1) \<Longrightarrow> step_ok s r s' evs"
  by (simp add: step_ok_def)

lemma step_ok_open:
  assumes "step_ok s None s1 evs" and "\<not> abort (task_state s1)"
  shows "presents (cursor s) evs (cursor s1)
         \<and> abort (task_state s1) = abort (task_state s)
         \<and> length (results s1) = length (results s) + length (filter is_execution evs)"
  using assms unfolding step_ok_def by blast

lemma step_ok_append:
  assumes a: "step_ok s None s1 evs1" and na: "\<not> abort (task_state s1)"
    and b: "step_ok s1 r s2 evs2"
  shows "step_ok s r s2 (evs1 @ evs2)"
proof -
  from step_ok_open [OF a na]
  have p: "presents (cursor s) evs1 (cursor s1)"
    and ab: "abort (task_state s1) = abort (task_state s)"
    and l: "length (results s1) = length (results s) + length (filter is_execution evs1)"
    by simp_all
  from b consider
    (plain) "presents (cursor s1) evs2 (cursor s2)"
      "abort (task_state s2) = abort (task_state s1)"
      "length (results s2) = length (results s1) + length (filter is_execution evs2)"
  | (compl) pre e where "evs2 = pre @ [e]" "presents (cursor s1) pre (cursor s2)"
      "is_completion e" "event_index e = cursor s2" "r \<noteq> None \<or> abort (task_state s2)"
      "length (results s2) = length (results s1) + length (filter is_execution pre)"
    unfolding step_ok_def by blast
  then show ?thesis
  proof cases
    case plain
    from presents_append [OF p plain(1)] plain(2,3) ab l show ?thesis
      unfolding step_ok_def by simp
  next
    case compl
    have "evs1 @ evs2 = (evs1 @ pre) @ [e]"
      using compl(1) by simp
    moreover have "length (results s2) =
        length (results s) + length (filter is_execution (evs1 @ pre))"
      using compl(6) l by simp
    ultimately show ?thesis
      unfolding step_ok_def using presents_append [OF p compl(2)] compl(3,4,5) by blast
  qed
qed

lemma step_ok_refl: "step_ok s r s []"
  by (simp add: step_ok_def presents_Nil)

lemma set_content_fields:
  "cursor (set_content bs s) = cursor s"
  "abort (task_state (set_content bs s)) = abort (task_state s)"
  "results (set_content bs s) = results s"
  "presented (set_content bs s) = presented s"
  "is_streaming (task_state (set_content bs s)) = is_streaming (task_state s)"
  "blocks (set_content bs s) = bs"
  by (simp_all add: set_content_def)

lemma stream_loop_effect:
  "stream_loop env chunks err msg s = (raised, msg', s') \<Longrightarrow>
     \<not> abort (task_state s) \<Longrightarrow>
     is_streaming (task_state s') = is_streaming (task_state s)
     \<and> (\<exists>evs. presented s' = presented s @ evs \<and> step_ok s raised s' evs)"
proof (induction chunks arbitrary: msg s)
  case Nil
  then show ?case by (simp add: step_ok_refl)
next
  case (Cons chunk rest)
  show ?case
  proof (cases "chunk_type chunk = ''text'' \<and> chunk_text chunk \<noteq> None \<and> chunk_text chunk \<noteq> Some []")
    case False
    with Cons.prems have "stream_loop env rest err msg s = (raised, msg', s')"
      by auto
    from Cons.IH [OF this Cons.prems(2)] show ?thesis .
  next
    case True
    define msg1 where "msg1 = msg @ the (chunk_text chunk)"
    define s1 where "s1 = set_content (parse_assistant_message msg1) s"
    obtain r s2 where pc: "present_content env s1 = (r, s2)"
      by (cases "present_content env s1")
    from present_content_effect [OF pc] obtain evs1 where
      st: "is_streaming (task_state s2) = is_streaming (task_state s1)"
      and pr: "presented s2 = presented s1 @ evs1" and ok1: "step_ok s1 r s2 evs1"
      by blast
    have ok: "step_ok s r s2 evs1"
      by (rule step_ok_start [OF ok1]) (simp_all add: s1_def set_content_fields)
    have st': "is_streaming (task_state s2) = is_streaming (task_state s)"
      and pr': "presented s2 = presented s @ evs1"
      using st pr by (simp_all add: s1_def set_content_fields)
    have loop: "stream_loop env (chunk # rest) err msg s =
        (case r of Some e \<Rightarrow> (Some e, msg1, s2)
         | None \<Rightarrow> if abort (task_state s2) then (None, msg1, s2)
                    else stream_loop env rest err msg1 s2)"
      using True pc unfolding msg1_def s1_def by (simp add: Let_def)
    show ?thesis
    proof (cases r)
      case (Some e)
      with loop Cons.prems(1) have "raised = r" "s' = s2" by simp_all
      with ok st' pr' show ?thesis by blast
    next
      case None
      show ?thesis
      proof (cases "abort (task_state s2)")
        case True
        with None loop Cons.prems(1) have "raised = r" "s' = s2" by simp_all
        with ok st' pr' show ?thesis by blast
      next
        case False
        with None loop Cons.prems(1)
        have rec: "stream_loop env rest err msg1 s2 = (raised, msg', s')" by simp
        from Cons.IH [OF rec False] obtain evs2 where
          st2: "is_streaming (task_state s') = is_streaming (task_state s2)"
          and pr2: "presented s' = presented s2 @ evs2" and ok2: "step_ok s2 raised s' evs2"
          by blast
        from ok None have "step_ok s None s2 evs1" by simp
        from step_ok_append [OF this False ok2]
        have "step_ok s raised s' (evs1 @ evs2)" .
        moreover have "presented s' = presented s @ (evs1 @ evs2)"
          using pr2 pr' by simp
        moreover have "is_streaming (task_state s') = is_streaming (task_state s)"
          using st2 st' by simp
        ultimately show ?thesis by blast
      qed
    qed
  qed
qed

lemma step_ok_turn:
  "step_ok s r s' evs \<Longrightarrow> cursor s = 0 \<Longrightarrow> results s = [] \<Longrightarrow>
   turn_ok evs (cursor s') (length (results s'))"
  unfolding step_ok_def turn_ok_def by auto

lemma add_to_history_fields:
  "add_to_history msg s = (r, s') \<Longrightarrow>
     task_state s' = task_state s \<and> presented s' = presented s \<and> next_task s' = next_task s
     \<and> world s' = world s \<and> requests s' = requests s \<and> inputs_read s' = inputs_read s"
  by (auto simp: add_to_history_def Let_def split: if_splits)

lemma finalize_content_fields:
  "cursor (finalize_content s) = cursor s"
  "abort (task_state (finalize_content s)) = abort (task_state s)"
  "results (finalize_content s) = results s"
  "presented (finalize_content s) = presented s"
  "is_streaming (task_state (finalize_content s)) = is_streaming (task_state s)"
  by (simp_all add: finalize_content_def set_content_fields)

lemma set_streaming_fields:
  "cursor (set_streaming b s) = cursor s"
  "abort (task_state (set_streaming b s)) = abort (task_state s)"
  "results (set_streaming b s) = results s"
  "presented (set_streaming b s) = presented s"
  "blocks (set_streaming b s) = blocks s"
  "is_streaming (task_state (set_streaming b s)) = b"
  by (simp_all add: set_streaming_def)

text \<open>The parts of a request, named.\<close>

lemma make_request_unfold:
  assumes na: "\<not> abort (task_state s)"
    and s3: "s3 = (set_streaming True (reset_state s))
                    \<lparr>requests := requests s @
                       [conversation_history s @
                          [(''user'', join newline (filter (\<lambda>t. t \<noteq> []) user_content))]]\<rparr>"
    and str: "create_message_stream env (length (requests s)) system_prompt
                (conversation_history s @
                   [(''user'', join newline (filter (\<lambda>t. t \<noteq> []) user_content))])
              = (chunks, err)"
    and sl: "stream_loop env chunks err [] s3 = (raised, assistant_message, s4)"
    and s5: "s5 = set_streaming False s4"
  shows "make_request env user_content s =
     (if raised \<noteq> None
      then (case raised of
              Some (Interrupt e) \<Rightarrow> (Raises (Interrupt e), s5)
            | _ \<Rightarrow> (Returns True, s5))
      else if abort (task_state s5) then (Returns True, s5)
      else (case present_content env (finalize_content s5) of
              (Some e, s6) \<Rightarrow> (Raises e, s6)
            | (None, s6) \<Rightarrow>
                if \<not> user_message_content_ready (task_state s6) \<and> \<not> abort (task_state s6)
                then (Hangs, s6)
                else if abort (task_state s6) then (Returns True, s6)
                else (let (r, s7) = add_to_history assistant_message s6
                      in (Returns r, s7))))"
proof -
  have a: "conversation_history (reset_state s) = conversation_history s"
    and b: "requests (set_streaming True (reset_state s)) = requests s"
    by (simp_all add: reset_state_def set_streaming_def)
  show ?thesis
    unfolding make_request_def Let_def a b
    using na str sl unfolding s3 s5 by simp
qed


lemma reset_fields:
  "cursor (reset_state s) = 0" "results (reset_state s) = []"
  "abort (task_state (reset_state s)) = abort (task_state s)"
  "presented (reset_state s) = presented s"
  by (simp_all add: reset_state_def)

lemma make_request_turn:
  assumes mr: "make_request env user_content s = (r, s')"
    and na: "\<not> abort (task_state s)"
  shows "\<exists>evs. presented s' = presented s @ evs
               \<and> turn_ok evs (cursor s') (length (results s'))"
proof -
  define s3 where "s3 = (set_streaming True (reset_state s))
                    \<lparr>requests := requests s @
                       [conversation_history s @
                          [(''user'', join newline (filter (\<lambda>t. t \<noteq> []) user_content))]]\<rparr>"
  obtain chunks err where str: "create_message_stream env (length (requests s)) system_prompt
                (conversation_history s @
                   [(''user'', join newline (filter (\<lambda>t. t \<noteq> []) user_content))])
              = (chunks, err)"
    by (cases "create_message_stream env (length (requests s)) system_prompt
                (conversation_history s @
                   [(''user'', join newline (filter (\<lambda>t. t \<noteq> []) user_content))])")
  obtain raised msg s4 where sl: "stream_loop env chunks err [] s3 = (raised, msg, s4)"
    by (cases "stream_loop env chunks err [] s3") auto
  define s5 where "s5 = set_streaming False s4"
  note eq = make_request_unfold [OF na s3_def str sl s5_def]
  have s3f: "cursor s3 = 0" "results s3 = []" "\<not> abort (task_state s3)"
    "presented s3 = presented s"
    using na by (simp_all add: s3_def set_streaming_fields reset_fields)
  from stream_loop_effect [OF sl s3f(3)] obtain evs1 where
    pr1: "presented s4 = presented s3 @ evs1" and ok1: "step_ok s3 raised s4 evs1"
    by blast
  have ok5: "step_ok s3 raised s5 evs1"
    by (rule step_ok_end [OF ok1]) (simp_all add: s5_def set_streaming_fields)
  have pr5: "presented s5 = presented s @ evs1"
    using pr1 s3f(4) by (simp add: s5_def set_streaming_fields)
  have done5: "s' = s5 \<Longrightarrow> ?thesis"
    using step_ok_turn [OF ok5 s3f(1,2)] pr5 by blast
  show ?thesis
  proof (cases "raised \<noteq> None \<or> abort (task_state s5)")
    case True
    with eq have "snd (make_request env user_content s) = s5"
      by (auto split: option.splits exn.splits)
    with mr have "s' = s5" by simp
    then show ?thesis by (rule done5)
  next
    case False
    then have rn: "raised = None" and na5: "\<not> abort (task_state s5)" by simp_all
    obtain e s6 where pc: "present_content env (finalize_content s5) = (e, s6)"
      by (cases "present_content env (finalize_content s5)")
    from present_content_effect [OF pc] obtain evs2 where
      pr6: "presented s6 = presented (finalize_content s5) @ evs2"
      and ok6: "step_ok (finalize_content s5) e s6 evs2"
      by blast
    have ok6': "step_ok s5 e s6 evs2"
      by (rule step_ok_start [OF ok6]) (simp_all add: finalize_content_fields)
    from ok5 rn have "step_ok s3 None s5 evs1" by simp
    from step_ok_append [OF this na5 ok6'] have ok: "step_ok s3 e s6 (evs1 @ evs2)" .
    have pr: "presented s6 = presented s @ (evs1 @ evs2)"
      using pr6 pr5 by (simp add: finalize_content_fields)
    obtain r7 s7 where ah: "add_to_history msg s6 = (r7, s7)"
      by (cases "add_to_history msg s6")
    have eq2: "make_request env user_content s =
        (case e of Some x \<Rightarrow> (Raises x, s6)
         | None \<Rightarrow>
             if \<not> user_message_content_ready (task_state s6) \<and> \<not> abort (task_state s6)
             then (Hangs, s6)
             else if abort (task_state s6) then (Returns True, s6)
             else (Returns r7, s7))"
      unfolding eq using rn na5 pc ah by (simp split: option.splits)
    have "s' = s6 \<or> s' = s7"
      using eq2 mr by (cases e) (simp_all split: if_splits)
    then have "task_state s' = task_state s6 \<and> presented s' = presented s6"
      using add_to_history_fields [OF ah] by auto
    then have "step_ok s3 e s' (evs1 @ evs2)" and "presented s' = presented s @ (evs1 @ evs2)"
      using ok pr by (simp_all add: step_ok_def)
    with step_ok_turn [OF _ s3f(1,2)] show ?thesis by blast
  qed
qed

lemma turn_ok_indices: "turn_ok evs c n \<Longrightarrow> map event_index evs = [0..<length evs]"
proof -
  have a: "\<And>xs k. presents 0 xs k \<Longrightarrow> length xs = k \<and> map event_index xs = [0..<k]"
  proof -
    fix xs k assume "presents 0 xs k"
    then have m: "map event_index xs = [0..<k]" by (simp add: presents_def)
    have "length xs = length (map event_index xs)" by simp
    also have "\<dots> = length [0..<k]" by (simp only: m)
    finally have "length xs = k" by simp
    with m show "length xs = k \<and> map event_index xs = [0..<k]" by simp
  qed
  assume "turn_ok evs c n"
  then consider "presents 0 evs c"
    | pre e where "evs = pre @ [e]" "presents 0 pre c" "event_index e = c"
    unfolding turn_ok_def by blast
  then show ?thesis
  proof cases
    case 1
    from a [OF 1] show ?thesis by simp
  next
    case 2
    from a [OF 2(2)] 2(1,3) show ?thesis by simp
  qed
qed

lemma turn_ok_completion_last:
  assumes t: "turn_ok evs c n" and e: "evs = pre @ e # post" and c: "is_completion e"
  shows "post = [] \<and> event_index e = c \<and> presents 0 pre c
         \<and> n = length (filter is_execution pre)"
proof -
  have nocomp: "\<And>xs k. presents 0 xs k \<Longrightarrow> e \<notin> set xs"
    using c by (auto simp: presents_def list_all_iff)
  from t consider (plain) "presents 0 evs c"
    | (compl) pre' e' where "evs = pre' @ [e']" "presents 0 pre' c" "is_completion e'"
        "event_index e' = c" "n = length (filter is_execution pre')"
    unfolding turn_ok_def by blast
  then show ?thesis
  proof cases
    case plain
    from nocomp [OF plain] e show ?thesis by simp
  next
    case compl
    from nocomp [OF compl(2)] have notin: "e \<notin> set pre'" .
    have "post = []"
    proof (rule ccontr)
      assume "post \<noteq> []"
      then obtain post' x where "post = post' @ [x]"
        by (metis rev_exhaust)
      with e compl(1) have "pre' = pre @ e # post'" by simp
      with notin show False by simp
    qed
    with e compl(1) have "pre' = pre" "e' = e" by simp_all
    with compl \<open>post = []\<close> show ?thesis by simp
  qed
qed

section \<open>The parser never marks a block partial\<close>

lemma parse_step_not_partial:
  "\<forall>b\<in>set (fst acc). \<not> partial b \<Longrightarrow>
   \<forall>b\<in>set (fst (parse_step message acc m)). \<not> partial b"
  by (auto simp: parse_step_def Let_def)

lemma foldl_parse_step_not_partial:
  "\<forall>b\<in>set (fst acc). \<not> partial b \<Longrightarrow>
   \<forall>b\<in>set (fst (foldl (parse_step message) acc ms)). \<not> partial b"
proof (induction ms arbitrary: acc)
  case Nil
  then show ?case by simp
next
  case (Cons m ms)
  from Cons.prems have "\<forall>b\<in>set (fst (parse_step message acc m)). \<not> partial b"
    by (rule parse_step_not_partial)
  then show ?case using Cons.IH by simp
qed

lemma parse_not_partial: "b \<in> set (parse_assistant_message message) \<Longrightarrow> \<not> partial b"
  using foldl_parse_step_not_partial [of "([], 0)" message "finditer match_tool 0 0 message"]
  by (auto simp: parse_assistant_message_def Let_def split: if_splits)

lemma finalize_block_id: "\<not> partial b \<Longrightarrow> finalize_block b = b"
  by (cases b) auto

lemma finalize_parse:
  "map finalize_block (parse_assistant_message message) = parse_assistant_message message"
  by (simp add: map_idI finalize_block_id parse_not_partial)

text \<open>
  Claim C10. For every input string, every block returned by \<open>parse_assistant_message\<close>
  has \<open>partial = False\<close>, and the finalization after the stream, which assigns
  \<open>partial = False\<close> to every block, leaves the parser's result as it is: a trailing
  block that may still grow is not told apart from a finished one.
\<close>

theorem parser_never_partial:
  "(\<forall>b\<in>set (parse_assistant_message message). partial b = False)
   \<and> map finalize_block (parse_assistant_message message) = parse_assistant_message message"
  using parse_not_partial finalize_parse by blast

theorem parser_never_partial_witness:
  "parse_assistant_message ''<read_file><path>a'' \<noteq> []
   \<and> list_all (\<lambda>b. partial b = False) (parse_assistant_message ''<read_file><path>a'')"
proof
  show "parse_assistant_message ''<read_file><path>a'' \<noteq> []" by code_simp
  show "list_all (\<lambda>b. partial b = False) (parse_assistant_message ''<read_file><path>a'')"
    using parser_never_partial [of "''<read_file><path>a''"] by (simp add: list_all_iff)
qed

section \<open>Parsing scenarios\<close>

text \<open>
  Claim C9. The buffer \<open>Hello <read_file><path>a.txt</path></read_file> world\<close> parses to
  exactly three blocks: the text \<open>Hello\<close>, the invocation of \<open>read_file\<close> with the one
  parameter \<open>path = a.txt\<close>, and the text \<open>world\<close>, all trimmed.
\<close>

theorem scenario_A_parse:
  "parse_assistant_message ''Hello <read_file><path>a.txt</path></read_file> world'' =
     [TextBlock ''Hello'' False,
      ToolUseBlock ''read_file'' [(''path'', ''a.txt'')] False,
      TextBlock ''world'' False]"
  by code_simp

text \<open>
  Claim C4, as stated: the unterminated buffer
  \<open><write_to_file><path>x</path><content>hi</content>\<close> parses to one text block marked
  partial whose content is the trimmed buffer. The parser's result is not that list.
\<close>

theorem scenario_B_not_partial:
  "parse_assistant_message ''<write_to_file><path>x</path><content>hi</content>'' \<noteq>
     [TextBlock (strip ''<write_to_file><path>x</path><content>hi</content>'') True]"
  by code_simp

text \<open>
  Claim C4, amended: the unterminated buffer parses to exactly one block, a text block
  whose content is the whole trimmed buffer (here the buffer itself) and whose \<open>partial\<close>
  is \<open>False\<close>; no tool block is emitted for the unterminated span.
\<close>

theorem scenario_B_parse:
  "parse_assistant_message ''<write_to_file><path>x</path><content>hi</content>'' =
     [TextBlock ''<write_to_file><path>x</path><content>hi</content>'' False]
   \<and> strip ''<write_to_file><path>x</path><content>hi</content>'' =
       ''<write_to_file><path>x</path><content>hi</content>''"
  by code_simp

section \<open>The order of presentation\<close>

text \<open>
  Claim C7. In every turn, whatever the stream and however often the buffer is parsed
  again and presentation run again, the indices that presentation visits are 0, 1, 2 and
  so on in this order: strictly increasing from 0, and no index twice.
\<close>

theorem presentation_order:
  "\<exists>evs. presented (snd (make_request env user_content s)) = presented s @ evs
         \<and> map event_index evs = [0..<length evs]"
proof (cases "abort (task_state s)")
  case True
  then have "make_request env user_content s = (Returns True, s)"
    by (simp add: make_request_def)
  then show ?thesis by simp
next
  case False
  from make_request_turn [OF prod.collapse [symmetric] False]
  obtain evs where "presented (snd (make_request env user_content s)) = presented s @ evs"
    and "turn_ok evs (cursor (snd (make_request env user_content s)))
           (length (results (snd (make_request env user_content s))))"
    by blast
  with turn_ok_indices show ?thesis by blast
qed

theorem presentation_order_witness:
  "\<exists>evs. presented (snd (make_request run_three [''go''] (init_task 0))) = evs
         \<and> map event_index evs = [0..<length evs] \<and> length evs = 3"
proof -
  have p: "presented (init_task (0::nat)) = []"
    by (simp add: init_task_def)
  have l: "length (presented (snd (make_request run_three [''go''] (init_task 0)))) = 3"
    by code_simp
  from presentation_order [of run_three "[''go'']" "init_task 0"] p l
  show ?thesis by auto
qed

text \<open>
  Claim C6. Once presentation has reached a completion-tool block in a turn, nothing of
  that turn is presented or executed after it: the completion is the last event of the
  turn, the cursor stays on it, every event before it has a smaller index, and the results
  collected in the turn are those of the tools executed before it.
\<close>

theorem completion_short_circuit:
  assumes mr: "make_request env user_content s = (r, s')"
    and tr: "presented s' = presented s @ pre @ e # post"
    and c: "is_completion e"
  shows "post = [] \<and> event_index e = cursor s'
         \<and> list_all (\<lambda>x. event_index x < event_index e) pre
         \<and> length (results s') = length (filter is_execution pre)"
proof (cases "abort (task_state s)")
  case True
  then have "make_request env user_content s = (Returns True, s)"
    by (simp add: make_request_def)
  with mr tr show ?thesis by simp
next
  case False
  from make_request_turn [OF mr False] tr
  have t: "turn_ok (pre @ e # post) (cursor s') (length (results s'))"
    by auto
  from turn_ok_completion_last [OF t refl c]
  have a: "post = []" "event_index e = cursor s'" "presents 0 pre (cursor s')"
    "length (results s') = length (filter is_execution pre)"
    by simp_all
  from a(3) have m: "map event_index pre = [0..<cursor s']"
    by (simp add: presents_def)
  have "list_all (\<lambda>x. event_index x < cursor s') pre"
    unfolding list_all_iff
  proof
    fix x assume "x \<in> set pre"
    then have "event_index x \<in> set (map event_index pre)" by simp
    then show "event_index x < cursor s'" unfolding m by simp
  qed
  with a show ?thesis by simp
qed

theorem completion_short_circuit_witness:
  "cursor (snd (make_request run_completion [''go''] (init_task 0))) = 1
   \<and> length (results (snd (make_request run_completion [''go''] (init_task 0)))) = 1
   \<and> world (snd (make_request run_completion [''go''] (init_task 0))) = 1"
proof -
  let ?s' = "snd (make_request run_completion [''go''] (init_task 0))"
  have tr: "presented ?s' = presented (init_task (0::nat)) @
              [Presented 0 (ToolUseBlock ''read_file'' [(''path'', ''a'')] False)]
              @ Completion 1 (ToolUseBlock ''attempt_completion'' [(''result'', ''ok'')] False) # []"
    by code_simp
  have w: "world ?s' = 1"
    by code_simp
  from completion_short_circuit [OF prod.collapse [symmetric] tr] w
  show ?thesis by simp
qed

section \<open>The tool dispatcher\<close>




section \<open>Stability of the parse under growth of the buffer\<close>

lemma finditer_span_start:
  "m \<in> set (finditer f skip pos s) \<Longrightarrow> pos \<le> span_start m \<and> span_start m < pos + length s"
proof (induction s arbitrary: skip pos)
  case Nil
  then show ?case by simp
next
  case (Cons c cs)
  show ?case
  proof (cases "0 < skip")
    case True
    with Cons.prems have "m \<in> set (finditer f (skip - 1) (Suc pos) cs)" by simp
    from Cons.IH [OF this] show ?thesis by simp
  next
    case False
    show ?thesis
    proof (cases "f (c # cs)")
      case None
      with False Cons.prems have "m \<in> set (finditer f 0 (Suc pos) cs)" by simp
      from Cons.IH [OF this] show ?thesis by simp
    next
      case (Some t)
      obtain g1 g2 len where t: "t = (g1, g2, len)" by (cases t)
      with Some False Cons.prems
      have "m = \<lparr>span_start = pos, span_end = pos + len, group1 = g1, group2 = g2\<rparr>
            \<or> m \<in> set (finditer f (len - 1) (Suc pos) cs)"
        by simp
      then show ?thesis
      proof
        assume "m \<in> set (finditer f (len - 1) (Suc pos) cs)"
        from Cons.IH [OF this] show ?thesis by simp
      qed simp
    qed
  qed
qed

lemma parse_step_prefix:
  assumes "span_start m \<le> length b1"
  shows "parse_step (b1 @ x) acc m = parse_step b1 acc m"
proof -
  let ?k = "snd acc" and ?n = "span_start m - snd acc"
  have tk: "take ?n (drop ?k (b1 @ x)) = take ?n (drop ?k b1)"
  proof (cases "?k < span_start m")
    case True
    with assms have "?k \<le> length b1" and "?n \<le> length b1 - ?k" by simp_all
    then show ?thesis by simp
  next
    case False
    then show ?thesis by simp
  qed
  show ?thesis
    by (simp only: parse_step_def Let_def tk)
qed

lemma foldl_parse_step_prefix:
  "\<forall>m\<in>set ms. span_start m \<le> length b1 \<Longrightarrow>
   foldl (parse_step (b1 @ x)) acc ms = foldl (parse_step b1) acc ms"
  by (induction ms arbitrary: acc) (simp_all add: parse_step_prefix)

lemma parse_step_last: "is_tool_use (last (fst (parse_step message acc m)))"
  by (simp add: parse_step_def Let_def)

lemma parse_step_nonempty: "fst (parse_step message acc m) \<noteq> []"
  by (simp add: parse_step_def Let_def)

lemma foldl_parse_step_last:
  "fst acc = [] \<or> is_tool_use (last (fst acc)) \<Longrightarrow>
   fst (foldl (parse_step message) acc ms) = []
   \<or> is_tool_use (last (fst (foldl (parse_step message) acc ms)))"
proof (induction ms arbitrary: acc)
  case Nil
  then show ?case by simp
next
  case (Cons m ms)
  have "is_tool_use (last (fst (parse_step message acc m)))"
    by (rule parse_step_last)
  then show ?case using Cons.IH [of "parse_step message acc m"] by simp
qed

lemma upto_last_tool_text:
  assumes "bs = [] \<or> is_tool_use (last bs)"
    and "tail = [] \<or> (\<exists>c p. tail = [TextBlock c p])"
  shows "upto_last_tool (bs @ tail) = bs"
proof -
  have a: "dropWhile (\<lambda>b. \<not> is_tool_use b) (rev bs) = rev bs"
  proof (cases bs rule: rev_cases)
    case Nil
    then show ?thesis by simp
  next
    case (snoc ys y)
    with assms(1) show ?thesis by simp
  qed
  from assms(2) show ?thesis
    by (auto simp: upto_last_tool_def a)
qed

text \<open>The result of the parser: the blocks of the loop, then at most one text block.\<close>

lemma parse_shape:
  "\<exists>tail. parse_assistant_message message =
           fst (foldl (parse_step message) ([], 0) (tool_spans message)) @ tail
        \<and> (tail = [] \<or> (\<exists>c p. tail = [TextBlock c p]))"
  by (auto simp: parse_assistant_message_def tool_spans_def Let_def)

lemma finalized_parse: "finalized (parse_assistant_message message) = parse_assistant_message message"
  unfolding finalized_def by (rule filter_True) (simp add: parse_not_partial)

lemma prefix_stable_core:
  assumes p: "prefix b1 b2" and same: "tool_spans b2 = tool_spans b1"
  shows "prefix (upto_last_tool (parse_assistant_message b1)) (parse_assistant_message b2)"
proof -
  from p obtain x where b2: "b2 = b1 @ x" by (auto simp: prefix_def)
  let ?ms = "tool_spans b1"
  have "\<forall>m\<in>set ?ms. span_start m \<le> length b1"
    unfolding tool_spans_def using finditer_span_start [of _ match_tool 0 0 b1] by fastforce
  then have eq: "foldl (parse_step b2) ([], 0) ?ms = foldl (parse_step b1) ([], 0) ?ms"
    unfolding b2 by (rule foldl_parse_step_prefix)
  let ?bs = "fst (foldl (parse_step b1) ([], 0) ?ms)"
  have last: "?bs = [] \<or> is_tool_use (last ?bs)"
    by (rule foldl_parse_step_last) simp
  from parse_shape [of b1] obtain tail1 where
    1: "parse_assistant_message b1 = ?bs @ tail1" "tail1 = [] \<or> (\<exists>c p. tail1 = [TextBlock c p])"
    by blast
  from parse_shape [of b2] same eq obtain tail2 where
    2: "parse_assistant_message b2 = ?bs @ tail2"
    by auto
  from upto_last_tool_text [OF last 1(2)] 1(1)
  have "upto_last_tool (parse_assistant_message b1) = ?bs" by simp
  with 2 show ?thesis by simp
qed

text \<open>
  Claim C5, as stated: for \<open>b1\<close> a strict prefix of \<open>b2\<close>, where \<open>b2\<close> has no new complete
  tool tag, the finalized segments of the parse of \<open>b1\<close> are a prefix of those of \<open>b2\<close>.
  It fails for \<open>a\<close> and \<open>ab\<close>, which have no tool span at all: each parses to one text
  block, not marked partial, and the two blocks differ.
\<close>

theorem prefix_stability_fails:
  "prefix ''a'' ''ab'' \<and> ''a'' \<noteq> ''ab'' \<and> tool_spans ''ab'' = [] \<and> tool_spans ''a'' = []
   \<and> \<not> prefix (finalized (parse_assistant_message ''a''))
              (finalized (parse_assistant_message ''ab''))"
  by code_simp

text \<open>
  Claim C5, amended: for \<open>b1\<close> a prefix of \<open>b2\<close> with the same tool spans, the finalized
  segments of the parse of \<open>b1\<close> up to and including its last tool invocation are a prefix
  of the finalized segments of the parse of \<open>b2\<close>. The text after the last tool span is a
  finalized segment too and changes as the buffer grows.
\<close>

theorem prefix_stability_upto_last_tool:
  assumes "prefix b1 b2" and "tool_spans b2 = tool_spans b1"
  shows "prefix (upto_last_tool (finalized (parse_assistant_message b1)))
                (finalized (parse_assistant_message b2))"
  using prefix_stable_core [OF assms] by (simp add: finalized_parse)

theorem prefix_stability_upto_last_tool_witness:
  "upto_last_tool (finalized (parse_assistant_message ''Hi <read_file><path>a</path></read_file> wor''))
     = [TextBlock ''Hi'' False, ToolUseBlock ''read_file'' [(''path'', ''a'')] False]
   \<and> prefix [TextBlock ''Hi'' False, ToolUseBlock ''read_file'' [(''path'', ''a'')] False]
        (finalized (parse_assistant_message ''Hi <read_file><path>a</path></read_file> world''))"
proof -
  have p: "prefix ''Hi <read_file><path>a</path></read_file> wor''
                  ''Hi <read_file><path>a</path></read_file> world''"
    by code_simp
  have t: "tool_spans ''Hi <read_file><path>a</path></read_file> world''
           = tool_spans ''Hi <read_file><path>a</path></read_file> wor''"
    by code_simp
  have u: "upto_last_tool (finalized (parse_assistant_message ''Hi <read_file><path>a</path></read_file> wor''))
     = [TextBlock ''Hi'' False, ToolUseBlock ''read_file'' [(''path'', ''a'')] False]"
    by code_simp
  from prefix_stability_upto_last_tool [OF p t] u show ?thesis by simp
qed

section \<open>The results of the tools\<close>

text \<open>
  Claim C2 says that the results collected while a turn's tools are presented go into the
  user content of the next request. In the program they do not. In the first run the
  turn executes \<open>read_file\<close> and collects its result, \<open>_make_request\<close> returns \<open>True\<close>, and
  \<open>_task_loop\<close> is left after this one request, the result still in
  \<open>user_message_content\<close>. In the second run the loop goes on, with the operator's next
  task: the second request carries the history and that task, and not the result.
\<close>

theorem tool_results_never_sent:
  "(case start_task 5 run_read ''t1'' (init_task 0) of
      None \<Rightarrow> False
    | Some (r, s) \<Rightarrow>
        r = Returns ()
        \<and> results s = [''Tool read_file result:'' @ newline @ ''contents of a.txt'']
        \<and> requests s = [[(''user'', ''t1''), (''user'', ''t1'')]])
   \<and> (case start_task 5 run_read_next ''t1'' (init_task 0) of
         None \<Rightarrow> False
       | Some (r, s) \<Rightarrow>
           r = Returns ()
           \<and> requests s =
               [[(''user'', ''t1''), (''user'', ''t1'')],
                [(''user'', ''t1''), (''user'', ''t2'')]])"
  by code_simp

section \<open>Handing over the next task\<close>



















end
